theory Spec2Isabelle
  imports Complex_Main "HOL-Library.List_Lexorder" "HOL-Library.Char_ord" "HOL-Library.Multiset"
begin

section \<open>The numbers of the host language\<close>

text \<open>
  The statistics of \<^verbatim>\<open>results-parser.ts\<close> are computed on the \<^verbatim>\<open>number\<close> type of
  the host language, the binary64 format of IEEE 754. A number is embedded as the real
  that it denotes (\<open>Fin\<close>, with \<open>Fin 0\<close> the positive zero), the negative zero, one of the
  two infinities or \<open>NaN\<close>. Every arithmetic operation computes the exact real result and
  rounds it to the nearest number of the format, a tie to the even significand:
  \<open>round64\<close>. \<^verbatim>\<open>Math.sqrt\<close> is correctly rounded by the standard; \<^verbatim>\<open>Math.pow\<close> is taken
  to round its exact result in the same way.

  A measured sample (the \<^verbatim>\<open>numericValue\<close> of an audit) that \<^verbatim>\<open>parseResults\<close> collects
  is embedded as an \<open>int\<close>: the samples of the batches below are integers that the format
  holds exactly. \<open>num\<close> reads a sample as a number.
\<close>

datatype jsnum = Fin real | NegZero | PosInf | NegInf | NaN

definition num :: "int \<Rightarrow> jsnum" where
  "num v = Fin (of_int v)"

fun isFinite :: "jsnum \<Rightarrow> bool" where
  "isFinite (Fin a) = True"
| "isFinite NegZero = True"
| "isFinite PosInf = False"
| "isFinite NegInf = False"
| "isFinite NaN = False"

text \<open>The real value of a finite number, and the sign bit of a number.\<close>

fun val :: "jsnum \<Rightarrow> real" where
  "val (Fin a) = a"
| "val NegZero = 0"
| "val PosInf = 0"
| "val NegInf = 0"
| "val NaN = 0"

fun negative :: "jsnum \<Rightarrow> bool" where
  "negative (Fin a) = (a < 0)"
| "negative NegZero = True"
| "negative PosInf = False"
| "negative NegInf = True"
| "negative NaN = False"

definition zero :: "bool \<Rightarrow> jsnum" where
  "zero s = (if s then NegZero else Fin 0)"

definition infinity :: "bool \<Rightarrow> jsnum" where
  "infinity s = (if s then NegInf else PosInf)"

text \<open>The nearest integer, a tie to the even one.\<close>

definition roundEven :: "real \<Rightarrow> int" where
  "roundEven y =
     (let f = \<lfloor>y\<rfloor>; r = y - of_int f
      in if r < 1 / 2 then f else if 1 / 2 < r then f + 1 else if even f then f else f + 1)"

text \<open>
  The exponent of the unit in the last place at \<open>x\<close>: 52 binary digits below the leading
  one, and never below that of the subnormal numbers.
\<close>

definition ulpExp :: "real \<Rightarrow> int" where
  "ulpExp x = max \<lfloor>log 2 \<bar>x\<bar>\<rfloor> (- 1022) - 52"

text \<open>
  Rounding to the format. \<open>s\<close> is the sign of the zero that an exact result 0 gives; a
  result that is rounded to zero, or that overflows, keeps its own sign.
\<close>

definition round64 :: "bool \<Rightarrow> real \<Rightarrow> jsnum" where
  "round64 s x =
     (if x = 0 then zero s
      else
        (let u = 2 powr of_int (ulpExp x);
             y = of_int (roundEven (x / u)) * u
         in if 2 ^ 1024 \<le> \<bar>y\<bar> then infinity (x < 0)
            else if y = 0 then zero (x < 0)
            else Fin y))"

text \<open>The reals that the format holds: rounding leaves them as they are.\<close>

definition representable :: "real \<Rightarrow> bool" where
  "representable x = (round64 False x = Fin x)"

fun jneg :: "jsnum \<Rightarrow> jsnum" where
  "jneg (Fin a) = (if a = 0 then NegZero else Fin (- a))"
| "jneg NegZero = Fin 0"
| "jneg PosInf = NegInf"
| "jneg NegInf = PosInf"
| "jneg NaN = NaN"

fun jadd :: "jsnum \<Rightarrow> jsnum \<Rightarrow> jsnum" where
  "jadd NaN y = NaN"
| "jadd x NaN = NaN"
| "jadd PosInf NegInf = NaN"
| "jadd NegInf PosInf = NaN"
| "jadd PosInf y = PosInf"
| "jadd x PosInf = PosInf"
| "jadd NegInf y = NegInf"
| "jadd x NegInf = NegInf"
| "jadd NegZero NegZero = NegZero"
| "jadd x y = round64 False (val x + val y)"

definition jsub :: "jsnum \<Rightarrow> jsnum \<Rightarrow> jsnum" where
  "jsub x y = jadd x (jneg y)"

fun jmul :: "jsnum \<Rightarrow> jsnum \<Rightarrow> jsnum" where
  "jmul NaN y = NaN"
| "jmul x NaN = NaN"
| "jmul PosInf PosInf = PosInf"
| "jmul PosInf NegInf = NegInf"
| "jmul NegInf PosInf = NegInf"
| "jmul NegInf NegInf = PosInf"
| "jmul PosInf y = (if val y = 0 then NaN else infinity (negative y))"
| "jmul NegInf y = (if val y = 0 then NaN else infinity (\<not> negative y))"
| "jmul x PosInf = (if val x = 0 then NaN else infinity (negative x))"
| "jmul x NegInf = (if val x = 0 then NaN else infinity (\<not> negative x))"
| "jmul x y = round64 (negative x \<noteq> negative y) (val x * val y)"

fun jdiv :: "jsnum \<Rightarrow> jsnum \<Rightarrow> jsnum" where
  "jdiv NaN y = NaN"
| "jdiv x NaN = NaN"
| "jdiv PosInf PosInf = NaN"
| "jdiv PosInf NegInf = NaN"
| "jdiv NegInf PosInf = NaN"
| "jdiv NegInf NegInf = NaN"
| "jdiv PosInf y = infinity (negative y)"
| "jdiv NegInf y = infinity (\<not> negative y)"
| "jdiv x PosInf = zero (negative x)"
| "jdiv x NegInf = zero (\<not> negative x)"
| "jdiv x y =
     (if val y = 0 then (if val x = 0 then NaN else infinity (negative x \<noteq> negative y))
      else round64 (negative x \<noteq> negative y) (val x / val y))"

fun Math_pow :: "jsnum \<Rightarrow> nat \<Rightarrow> jsnum" where
  "Math_pow NaN n = (if n = 0 then Fin 1 else NaN)"
| "Math_pow PosInf n = (if n = 0 then Fin 1 else PosInf)"
| "Math_pow NegInf n = (if n = 0 then Fin 1 else if even n then PosInf else NegInf)"
| "Math_pow x n = round64 (negative x \<and> odd n) (val x ^ n)"

fun Math_sqrt :: "jsnum \<Rightarrow> jsnum" where
  "Math_sqrt (Fin a) = (if a < 0 then NaN else round64 False (sqrt a))"
| "Math_sqrt NegZero = NegZero"
| "Math_sqrt PosInf = PosInf"
| "Math_sqrt NegInf = NaN"
| "Math_sqrt NaN = NaN"

fun Math_abs :: "jsnum \<Rightarrow> jsnum" where
  "Math_abs (Fin a) = Fin \<bar>a\<bar>"
| "Math_abs NegZero = Fin 0"
| "Math_abs PosInf = PosInf"
| "Math_abs NegInf = PosInf"
| "Math_abs NaN = NaN"

fun jmin :: "jsnum \<Rightarrow> jsnum \<Rightarrow> jsnum" where
  "jmin NaN y = NaN"
| "jmin x NaN = NaN"
| "jmin NegInf y = NegInf"
| "jmin x NegInf = NegInf"
| "jmin PosInf y = y"
| "jmin x PosInf = x"
| "jmin x y = (if val x < val y then x else if val y < val x then y else if negative x then x else y)"

fun jmax :: "jsnum \<Rightarrow> jsnum \<Rightarrow> jsnum" where
  "jmax NaN y = NaN"
| "jmax x NaN = NaN"
| "jmax PosInf y = PosInf"
| "jmax x PosInf = PosInf"
| "jmax NegInf y = y"
| "jmax x NegInf = x"
| "jmax x y = (if val x < val y then y else if val y < val x then x else if negative x then y else x)"

text \<open>
  \<^verbatim>\<open>Math.min(...values)\<close> and \<^verbatim>\<open>Math.max(...values)\<close>: with no argument they are
  \<open>Infinity\<close> and \<open>-Infinity\<close>.
\<close>

definition Math_min :: "jsnum list \<Rightarrow> jsnum" where
  "Math_min xs = foldl jmin PosInf xs"

definition Math_max :: "jsnum list \<Rightarrow> jsnum" where
  "Math_max xs = foldl jmax NegInf xs"

text \<open>Finite numbers of magnitude at most \<open>2 ^ k\<close>, and finite numbers that are not below 0.\<close>

definition bounded :: "nat \<Rightarrow> jsnum \<Rightarrow> bool" where
  "bounded k x = (isFinite x \<and> \<bar>val x\<bar> \<le> 2 ^ k)"

definition nonneg :: "jsnum \<Rightarrow> bool" where
  "nonneg x = (isFinite x \<and> 0 \<le> val x)"

section \<open>Arrays and strings of the host language\<close>

text \<open>
  \<open>Number::toString\<close> on a sample, an integer that the format holds. Below \<open>2 ^ 53\<close> the
  text is the decimal numeral. From there on it is made of the shortest digit string \<open>s\<close>
  of which some \<open>s * 10 ^ j\<close> is rounded to the number: followed by \<open>j\<close> zeros below
  \<open>10 ^ 21\<close>, in exponent notation from \<open>10 ^ 21\<close>.
\<close>

definition digitChar :: "nat \<Rightarrow> char" where
  "digitChar d = ''0123456789'' ! (d mod 10)"

function decimal :: "int \<Rightarrow> string" where
  "decimal n =
     (if n < 10 then [digitChar (nat n)] else decimal (n div 10) @ [digitChar (nat (n mod 10))])"
  by pat_completeness auto
termination
  by (relation "measure nat") auto

declare decimal.simps [simp del]

function log2floor :: "int \<Rightarrow> nat" where
  "log2floor n = (if n < 2 then 0 else Suc (log2floor (n div 2)))"
  by pat_completeness auto
termination
  by (relation "measure nat") auto

declare log2floor.simps [simp del]

text \<open>The quotient rounded to the nearest integer, a tie to the even one.\<close>

definition roundDiv :: "int \<Rightarrow> int \<Rightarrow> int" where
  "roundDiv m d =
     (let q = m div d; r = m mod d
      in if d < 2 * r then q + 1 else if 2 * r < d then q else if even q then q else q + 1)"

text \<open>The number of the format nearest to a natural number.\<close>

definition nearestDouble :: "int \<Rightarrow> int" where
  "nearestDouble m =
     (if m < 2 ^ 53 then m
      else (let u = 2 ^ (log2floor m - 52) in roundDiv m u * u))"

text \<open>
  The shortest digits of \<open>v\<close>, a number of \<open>n\<close> decimal digits: the first \<open>k\<close> for which
  the \<open>k\<close>-digit decimal nearest to \<open>v\<close> is rounded to \<open>v\<close>; 17 digits always are.
\<close>

fun shortestDigits :: "int \<Rightarrow> nat \<Rightarrow> nat \<Rightarrow> nat \<Rightarrow> int \<times> nat" where
  "shortestDigits v n k 0 = (roundDiv v (10 ^ (n - k)), k)"
| "shortestDigits v n k (Suc fuel) =
     (let s = roundDiv v (10 ^ (n - k))
      in if s < 10 ^ k \<and> nearestDouble (s * 10 ^ (n - k)) = v then (s, k)
         else shortestDigits v n (Suc k) fuel)"

definition exponentText :: "string \<Rightarrow> nat \<Rightarrow> string" where
  "exponentText ds n =
     (case ds of
        [] \<Rightarrow> []
      | d # rest \<Rightarrow>
          (if rest = [] then [d] else d # CHR ''.'' # rest) @ ''e+'' @ decimal (int n - 1))"

definition doubleText :: "int \<Rightarrow> string" where
  "doubleText v =
     (let n = length (decimal v)
      in if nearestDouble (10 ^ n) = v then exponentText ''1'' (Suc n)
         else (case shortestDigits v n 1 16 of
                 (s, k) \<Rightarrow>
                   if n \<le> 21 then decimal s @ replicate (n - k) CHR ''0''
                   else exponentText (decimal s) n))"

definition numberToString :: "int \<Rightarrow> string" where
  "numberToString v =
     (if v < 0 then CHR ''-'' # (if - v < 2 ^ 53 then decimal (- v) else doubleText (- v))
      else if v < 2 ^ 53 then decimal v else doubleText v)"

text \<open>
  \<^verbatim>\<open>Array.prototype.sort(comparefn)\<close> is stable, and with a consistent comparator its
  result is the stable insertion sort's. It sorts the array in place and returns it; the
  functions below that call it return the sorted array beside their result, as the new
  contents of the array they were given.
\<close>

fun insertBy :: "('a \<Rightarrow> 'a \<Rightarrow> int) \<Rightarrow> 'a \<Rightarrow> 'a list \<Rightarrow> 'a list" where
  "insertBy cmp x [] = [x]"
| "insertBy cmp x (y # ys) = (if cmp x y \<le> 0 then x # y # ys else y # insertBy cmp x ys)"

definition Array_sort :: "('a \<Rightarrow> 'a \<Rightarrow> int) \<Rightarrow> 'a list \<Rightarrow> 'a list" where
  "Array_sort cmp xs = foldr (insertBy cmp) xs []"

text \<open>Strings compare by code units, a proper prefix before its extensions.\<close>

definition compareStrings :: "string \<Rightarrow> string \<Rightarrow> int" where
  "compareStrings a b = (if a < b then - 1 else if b < a then 1 else 0)"

text \<open>The ordering of \<^verbatim>\<open>sort()\<close> without a comparator: by the text of the elements.\<close>

definition defaultCompare :: "int \<Rightarrow> int \<Rightarrow> int" where
  "defaultCompare x y = compareStrings (numberToString x) (numberToString y)"

text \<open>\<^verbatim>\<open>xs[k]\<close>: \<open>None\<close> is \<^verbatim>\<open>undefined\<close>, the value of a read outside the array.\<close>

definition index :: "'a list \<Rightarrow> int \<Rightarrow> 'a option" where
  "index xs k = (if 0 \<le> k \<and> k < int (length xs) then Some (xs ! nat k) else None)"

text \<open>\<open>ToNumber\<close> of an array element that may be \<^verbatim>\<open>undefined\<close>.\<close>

fun toNumber :: "int option \<Rightarrow> jsnum" where
  "toNumber None = NaN"
| "toNumber (Some v) = num v"

fun join :: "string \<Rightarrow> string list \<Rightarrow> string" where
  "join sep [] = []"
| "join sep [x] = x"
| "join sep (x # y # ys) = x @ sep @ join sep (y # ys)"

section \<open>The statistics of results-parser.ts\<close>

definition calculateAverage :: "jsnum list \<Rightarrow> jsnum" where
  "calculateAverage values =
     jdiv (foldl (\<lambda>a b. jadd a b) (Fin 0) values) (Fin (real (length values)))"

definition calculateMedian :: "int list \<Rightarrow> jsnum option \<times> int list" where
  "calculateMedian values =
     (let sorted = Array_sort defaultCompare values;
          middle = int (length sorted) div 2
      in (if length sorted mod 2 = 0
          then Some (jdiv (jadd (toNumber (index sorted (middle - 1)))
                                (toNumber (index sorted middle))) (Fin 2))
          else map_option num (index sorted middle),
          sorted))"

definition calculateStandardDeviation :: "jsnum list \<Rightarrow> jsnum" where
  "calculateStandardDeviation values =
     (let average = calculateAverage values;
          squaredDiffs = map (\<lambda>value. Math_pow (jsub value average) 2) values;
          averageSquaredDiffs = calculateAverage squaredDiffs
      in Math_sqrt averageSquaredDiffs)"

definition calculatePercentile :: "int list \<Rightarrow> real \<Rightarrow> jsnum option \<times> int list" where
  "calculatePercentile values percentile =
     (let sorted = Array_sort defaultCompare values;
          position = jmul (jdiv (Fin percentile) (Fin 100)) (Fin (real (length sorted)))
      in (if isFinite position then map_option num (index sorted \<lceil>val position\<rceil>) else None,
          sorted))"

record minMax =
  minV :: jsnum
  maxV :: jsnum

definition calculateMinMax :: "jsnum list \<Rightarrow> minMax" where
  "calculateMinMax values = \<lparr>minV = Math_min values, maxV = Math_max values\<rparr>"

definition calculateSpread :: "jsnum list \<Rightarrow> jsnum" where
  "calculateSpread values =
     (let mm = calculateMinMax values in jsub (maxV mm) (minV mm))"

definition calculateEmpiricalVariance :: "jsnum list \<Rightarrow> jsnum" where
  "calculateEmpiricalVariance values =
     (let average = calculateAverage values;
          diffs = map (\<lambda>value. Math_abs (jsub value average)) values
      in calculateAverage diffs)"

definition calculateVariationCoefficient :: "jsnum list \<Rightarrow> jsnum" where
  "calculateVariationCoefficient values =
     (let average = calculateAverage values;
          standardDeviation = calculateStandardDeviation values
      in jmul (jdiv standardDeviation average) (Fin 100))"

text \<open>
  The textbook statistics, written from their definitions on real numbers: the
  code's results are compared with them.
\<close>

definition mean :: "real list \<Rightarrow> real" where
  "mean rs = sum_list rs / real (length rs)"


definition textbookMedian :: "int list \<Rightarrow> real" where
  "textbookMedian vs =
     (let s = sort vs; m = length s div 2
      in if even (length s) then (real_of_int (s ! (m - 1)) + real_of_int (s ! m)) / 2
         else real_of_int (s ! m))"



section \<open>Grouping and summarising: parseResults\<close>

text \<open>
  Of an audit result only \<^verbatim>\<open>numericValue\<close> is read (\<open>None\<close> is \<^verbatim>\<open>undefined\<close>); of
  a Lighthouse result, its audits and whether it carries a \<^verbatim>\<open>runtimeError\<close>. The
  audits of a result are the list that \<^verbatim>\<open>Object.entries\<close> enumerates. The type \<open>'v\<close>
  of the values is \<open>int\<close> where the values are computed with.
\<close>

record 'v auditResult =
  numericValue :: "'v option"

record 'v result =
  audits :: "(string \<times> 'v auditResult) list"
  runtimeError :: "string option"

text \<open>
  A \<^verbatim>\<open>Map\<close> keeps its keys in insertion order: an association list with \<open>has\<close>,
  \<open>get\<close> and \<open>set\<close>. \<open>set\<close> on a key that is present keeps the key's place.
\<close>

definition Map_has :: "('k \<times> 'v) list \<Rightarrow> 'k \<Rightarrow> bool" where
  "Map_has m k = (k \<in> set (map fst m))"

definition Map_get :: "('k \<times> 'v) list \<Rightarrow> 'k \<Rightarrow> 'v option" where
  "Map_get m k = map_of m k"

fun Map_set :: "('k \<times> 'v) list \<Rightarrow> 'k \<Rightarrow> 'v \<Rightarrow> ('k \<times> 'v) list" where
  "Map_set [] k v = [(k, v)]"
| "Map_set (p # m) k v = (if fst p = k then (k, v) # m else p # Map_set m k v)"

datatype error = TypeError

text \<open>A \<^verbatim>\<open>for ... of\<close> loop whose body may throw.\<close>

fun forEach :: "('s \<Rightarrow> 'a \<Rightarrow> error + 's) \<Rightarrow> 'a list \<Rightarrow> 's \<Rightarrow> error + 's" where
  "forEach body [] s = Inr s"
| "forEach body (x # xs) s =
     (case body s x of Inl e \<Rightarrow> Inl e | Inr s' \<Rightarrow> forEach body xs s')"

text \<open>
  The body of the inner loop. \<^verbatim>\<open>if (auditResult.numericValue)\<close> tests the truthiness of
  the value: \<^verbatim>\<open>undefined\<close> and \<open>0\<close> are falsy. \<^verbatim>\<open>audits.get(audit)!.push(v)\<close> appends to
  the array that the map holds, and throws when \<open>get\<close> is \<^verbatim>\<open>undefined\<close>.
\<close>

definition collectAudit ::
  "(string \<times> int list) list \<Rightarrow> string \<times> int auditResult
     \<Rightarrow> error + (string \<times> int list) list" where
  "collectAudit auditMap entry =
     (case entry of (audit, auditResult) \<Rightarrow>
        (case numericValue auditResult of
           None \<Rightarrow> Inr auditMap
         | Some v \<Rightarrow>
             if v = 0 then Inr auditMap
             else
               (let auditMap1 =
                      (if \<not> Map_has auditMap audit then Map_set auditMap audit [] else auditMap)
                in case Map_get auditMap1 audit of
                     None \<Rightarrow> Inl TypeError
                   | Some arr \<Rightarrow> Inr (Map_set auditMap1 audit (arr @ [v])))))"

definition groupAudits :: "int result list \<Rightarrow> error + (string \<times> int list) list" where
  "groupAudits results =
     forEach (\<lambda>m r. forEach collectAudit (audits r) m) results []"

record metricSummary =
  average :: jsnum
  median :: "jsnum option"
  standardDeviation :: jsnum
  percentile95 :: "jsnum option"
  percentile99 :: "jsnum option"
  minMax :: minMax
  spread :: jsnum
  empiricalVariance :: jsnum
  variationCoefficient :: jsnum
  values_raw :: "int list"

text \<open>
  The object literal of the second loop. Its fields are evaluated in order on one array:
  \<^verbatim>\<open>calculateMedian\<close> and \<^verbatim>\<open>calculatePercentile\<close> sort that array in place, so every
  later field, and the \<^verbatim>\<open>values\<close> field, which is the array itself, sees it sorted.
\<close>

definition summarize :: "int list \<Rightarrow> metricSummary" where
  "summarize values0 =
     (let avg = calculateAverage (map num values0);
          (med, values1) = calculateMedian values0;
          sd = calculateStandardDeviation (map num values1);
          (p95, values2) = calculatePercentile values1 95;
          (p99, values3) = calculatePercentile values2 99;
          mm = calculateMinMax (map num values3);
          spr = calculateSpread (map num values3);
          ev = calculateEmpiricalVariance (map num values3);
          vc = calculateVariationCoefficient (map num values3)
      in \<lparr>average = avg, median = med, standardDeviation = sd, percentile95 = p95,
          percentile99 = p99, minMax = mm, spread = spr, empiricalVariance = ev,
          variationCoefficient = vc, values_raw = values3\<rparr>)"

definition parseResults :: "int result list \<Rightarrow> error + (string \<times> metricSummary) list" where
  "parseResults results =
     (case groupAudits results of
        Inl e \<Rightarrow> Inl e
      | Inr m \<Rightarrow> Inr (map (\<lambda>(audit, vs). (audit, summarize vs)) m))"

section \<open>One row of the report: resultToCsv\<close>

text \<open>
  \<^verbatim>\<open>resultToCsv\<close> calls two functions of the host: \<^verbatim>\<open>String.prototype.localeCompare\<close>,
  which compares by the collation of the locale in which the program happens to run, and
  \<open>Number::toString\<close>, through \<^verbatim>\<open>join\<close>. Both are parameters of the embedding, and the
  values of a result are of any type \<open>'v\<close>. \<^verbatim>\<open>join\<close> writes \<^verbatim>\<open>undefined\<close> as the empty
  string.
\<close>

record csvRow =
  header :: string
  values_row :: string

fun valueText :: "('v \<Rightarrow> string) \<Rightarrow> 'v option \<Rightarrow> string" where
  "valueText toString None = []"
| "valueText toString (Some v) = toString v"

definition resultToCsv ::
  "(string \<Rightarrow> string \<Rightarrow> int) \<Rightarrow> ('v \<Rightarrow> string) \<Rightarrow> 'v result \<Rightarrow> csvRow" where
  "resultToCsv localeCompare toString r =
     (let numericAudits =
            filter (\<lambda>e. numericValue (snd e) \<noteq> None)
              (Array_sort (\<lambda>a b. localeCompare (fst a) (fst b)) (audits r))
      in \<lparr>header = join '','' (map fst numericAudits),
          values_row =
            join '','' (map (\<lambda>e. valueText toString (numericValue (snd e))) numericAudits)\<rparr>)"

text \<open>
  A collation of names made of ASCII letters, as the default collation of the host
  orders them: by the letters whatever their case, and of two names that differ by case
  only, first the one with the lower case at the first difference.
\<close>

definition lowerCase :: "char \<Rightarrow> char" where
  "lowerCase c =
     (case map_of (zip ''ABCDEFGHIJKLMNOPQRSTUVWXYZ'' ''abcdefghijklmnopqrstuvwxyz'') c of
        None \<Rightarrow> c
      | Some l \<Rightarrow> l)"

definition letterCollation :: "string \<Rightarrow> string \<Rightarrow> int" where
  "letterCollation a b =
     (let la = map lowerCase a; lb = map lowerCase b
      in if la < lb then - 1 else if lb < la then 1 else compareStrings b a)"

section \<open>The run loop of index.ts\<close>

definition runsPerPage :: int where
  "runsPerPage = 10"

record runnerResult =
  lhr :: "int result"
  report :: string

text \<open>
  What the loop does to the world, in program order: the increment of the run's progress
  bar, the call of the audit, the push of an accepted result and the write of its report.
\<close>

datatype effect = BarIncrement | Lighthouse | ResultsPush | WriteFile string

record runState =
  results :: "int result list"
  runBar :: nat
  written :: "(string \<times> string) list"
  effects :: "effect list"

definition initialState :: runState where
  "initialState = \<lparr>results = [], runBar = 0, written = [], effects = []\<rparr>"

text \<open>
  The loop \<^verbatim>\<open>for (let i = 0; i < runsPerPage; i++)\<close> on the outcomes of the successive
  calls of \<^verbatim>\<open>lighthouse\<close> (\<open>None\<close>: no runner result). \<^verbatim>\<open>i--; continue\<close> is followed by
  the loop's \<^verbatim>\<open>i++\<close>. The files are named relative to the directory of the combination.
  When the loop asks for an outcome that the list does not hold, it has not returned:
  \<open>None\<close>. The second test \<^verbatim>\<open>if (!runnerResult) throw\<close> is behind the first, which
  has already left the iteration when there is no runner result. A call of the audit or
  a write that throws ends the whole program; the sequences below hold the outcomes of
  calls that return.
\<close>

fun runLoop :: "int \<Rightarrow> int \<Rightarrow> runnerResult option list \<Rightarrow> runState \<Rightarrow> runState option" where
  "runLoop n i [] s = (if i < n then None else Some s)"
| "runLoop n i (runnerResult # rest) s =
     (if i < n then
        (let s1 = s\<lparr>runBar := runBar s + 1, effects := effects s @ [BarIncrement, Lighthouse]\<rparr>
         in case runnerResult of
              None \<Rightarrow> runLoop n (i - 1 + 1) rest s1
            | Some r \<Rightarrow>
                (case runtimeError (lhr r) of
                   Some e \<Rightarrow> runLoop n (i - 1 + 1) rest s1
                 | None \<Rightarrow>
                     runLoop n (i + 1) rest
                       (s1\<lparr>results := results s1 @ [lhr r],
                           written := written s1 @ [(numberToString i @ ''.json'', report r)],
                           effects := effects s1
                             @ [ResultsPush, WriteFile (numberToString i @ ''.json'')]\<rparr>)))
      else Some s)"

text \<open>The results that the loop accepts among a sequence of outcomes.\<close>

fun accepted :: "runnerResult option list \<Rightarrow> int result list" where
  "accepted [] = []"
| "accepted (None # rest) = accepted rest"
| "accepted (Some r # rest) =
     (case runtimeError (lhr r) of Some e \<Rightarrow> accepted rest | None \<Rightarrow> lhr r # accepted rest)"

section \<open>What the grouping keeps\<close>

text \<open>
  The values of metric \<open>k\<close> that pass the test of the inner loop, in the order of the
  runs and of the entries of each run: the numeric values other than 0.
\<close>

fun kept :: "string \<Rightarrow> string \<times> int auditResult \<Rightarrow> int list" where
  "kept k (k', a) =
     (case numericValue a of None \<Rightarrow> [] | Some v \<Rightarrow> if k' = k \<and> v \<noteq> 0 then [v] else [])"

definition keptValues :: "string \<Rightarrow> int result list \<Rightarrow> int list" where
  "keptValues k rs = concat (map (\<lambda>r. concat (map (kept k) (audits r))) rs)"

text \<open>
  The array that a map holds for a key, empty when the key is absent; and the maps of the
  grouping loop: keys without repetition, no empty array.
\<close>

definition series :: "(string \<times> int list) list \<Rightarrow> string \<Rightarrow> int list" where
  "series m k = (case map_of m k of None \<Rightarrow> [] | Some vs \<Rightarrow> vs)"

definition seriesMap :: "(string \<times> int list) list \<Rightarrow> bool" where
  "seriesMap m = (distinct (map fst m) \<and> [] \<notin> snd ` set m)"

section \<open>Sample inputs\<close>

text \<open>A result without runtime error that reports the given values.\<close>

definition runRecord :: "(string \<times> 'v option) list \<Rightarrow> 'v result" where
  "runRecord kvs =
     \<lparr>audits = map (\<lambda>(k, v). (k, \<lparr>numericValue = v\<rparr>)) kvs, runtimeError = None\<rparr>"

text \<open>A successful audit, and one that reports a runtime error.\<close>

definition okRun :: runnerResult where
  "okRun = \<lparr>lhr = runRecord [(''m'', Some 1)], report = ''{}''\<rparr>"

definition failedRun :: runnerResult where
  "failedRun = \<lparr>lhr = \<lparr>audits = [], runtimeError = Some ''NO_FCP''\<rparr>, report = ''{}''\<rparr>"

section \<open>Sorting\<close>

lemma length_insertBy [simp]: "length (insertBy cmp x xs) = Suc (length xs)"
  by (induction xs) simp_all

lemma length_Array_sort [simp]: "length (Array_sort cmp xs) = length xs"
  by (induction xs) (simp_all add: Array_sort_def)

lemma mset_insertBy [simp]: "mset (insertBy cmp x xs) = add_mset x (mset xs)"
  by (induction xs) simp_all

lemma mset_Array_sort [simp]: "mset (Array_sort cmp xs) = mset xs"
  by (induction xs) (simp_all add: Array_sort_def)

lemma set_Array_sort [simp]: "set (Array_sort cmp xs) = set xs"
  using mset_Array_sort [of cmp xs] by (metis set_mset_mset)

lemma compareStrings_le [simp]: "(compareStrings a b \<le> 0) = (a \<le> b)"
  by (auto simp: compareStrings_def)

text \<open>Sorting with a comparison of string keys is the library's stable sort by that key.\<close>

lemma insertBy_key:
  "insertBy (\<lambda>a b. compareStrings (f a) (f b)) x xs = insort_key f x xs"
  by (induction xs) simp_all

lemma Array_sort_key:
  "Array_sort (\<lambda>a b. compareStrings (f a) (f b)) xs = sort_key f xs"
  by (induction xs) (simp_all add: Array_sort_def insertBy_key)

lemma Array_sort_default: "Array_sort defaultCompare vs = sort_key numberToString vs"
  using Array_sort_key [of numberToString vs] by (simp add: defaultCompare_def [abs_def])

section \<open>The median\<close>

text \<open>
  Claim C1. The median of the aggregator is the textbook median, the middle of the series
  sorted by numeric value: the median of 10, 2, 33 is 10.

  \<^verbatim>\<open>calculateMedian\<close> calls \<^verbatim>\<open>sort()\<close> without a comparator, which orders the samples by
  their decimal text: 10, 2, 33 is already in that order, and the middle element is 2.
\<close>

theorem calculateMedian_sorts_by_text:
  "fst (calculateMedian [10, 2, 33]) = Some (Fin 2)
   \<and> snd (calculateMedian [10, 2, 33]) = [10, 2, 33]
   \<and> textbookMedian [10, 2, 33] = 10"
proof -
  have "Array_sort defaultCompare [10, 2, 33] = [10, 2, 33]"
    by code_simp
  then have "calculateMedian [10, 2, 33] = (Some (Fin 2), [10, 2, 33])"
    by (simp add: calculateMedian_def index_def num_def)
  moreover have "textbookMedian [10, 2, 33] = 10"
    by (simp add: textbookMedian_def)
  ultimately show ?thesis by simp
qed

section \<open>Rounding\<close>

text \<open>
  Rounding leaves the numbers of the format as they are, among them the integers below
  \<open>2 ^ 53\<close> in magnitude; it keeps a bound that is a power of two; beyond the largest
  number of the format it gives an infinity; and in a known binade it is the rounding of
  the quotient by the unit in the last place of that binade.
\<close>

lemma roundEven_of_int [simp]: "roundEven (of_int k) = k"
  by (simp add: roundEven_def)

lemma roundEven_le:
  assumes "z \<le> of_int n"
  shows "roundEven z \<le> n"
proof (cases "\<lfloor>z\<rfloor> < n")
  case True
  then show ?thesis by (simp add: roundEven_def Let_def)
next
  case False
  moreover have "\<lfloor>z\<rfloor> \<le> n" using assms by (simp add: floor_le_iff)
  ultimately have "\<lfloor>z\<rfloor> = n" by simp
  then have "z = of_int n" using assms by (metis of_int_floor_le order_antisym)
  then show ?thesis by simp
qed

lemma roundEven_ge:
  assumes "of_int n \<le> z"
  shows "n \<le> roundEven z"
proof -
  have "n \<le> \<lfloor>z\<rfloor>" using assms by (simp add: le_floor_iff)
  then show ?thesis by (simp add: roundEven_def Let_def)
qed

lemma floor_log2:
  assumes "2 powr of_int e \<le> \<bar>x\<bar>" and "\<bar>x\<bar> < 2 powr of_int (e + 1)"
  shows "\<lfloor>log 2 \<bar>x\<bar>\<rfloor> = e"
proof -
  have "(0::real) < 2 powr of_int e" by simp
  with assms(1) have pos: "0 < \<bar>x\<bar>" by linarith
  have "of_int e \<le> log 2 \<bar>x\<bar>" using assms(1) pos by (simp add: le_log_iff)
  moreover have "log 2 \<bar>x\<bar> < of_int (e + 1)" using assms(2) pos by (simp add: log_less_iff)
  ultimately show ?thesis by (simp add: floor_eq_iff)
qed


lemma two_powr_int: "0 \<le> d \<Longrightarrow> (2::real) powr of_int d = of_int (2 ^ nat d)"
  by (simp add: powr_int)

lemma two_powr_nat: "(2::real) powr of_int (int k) = 2 ^ k"
  by (simp add: powr_realpow)

lemma representable_zero [simp]: "representable 0"
  by (simp add: representable_def round64_def zero_def)

lemma round64_representable:
  assumes "representable x" and "x \<noteq> 0"
  shows "round64 s x = Fin x"
  using assms by (simp add: representable_def round64_def)

lemma representable_dyadic:
  assumes x: "x = of_int m * 2 powr of_int q"
    and m: "\<bar>m\<bar> < 2 ^ 53" and q: "- 1074 \<le> q" and b: "\<bar>x\<bar> < 2 ^ 1024"
  shows "representable x"
proof (cases "x = 0")
  case True
  then show ?thesis by simp
next
  case False
  have pos: "0 < \<bar>x\<bar>" using False by simp
  have "\<bar>x\<bar> = of_int \<bar>m\<bar> * 2 powr of_int q"
    by (simp add: x abs_mult)
  also have "\<dots> < 2 ^ 53 * 2 powr of_int q"
  proof -
    have "(of_int \<bar>m\<bar> :: real) < of_int (2 ^ 53)" using m by (simp only: of_int_less_iff)
    then show ?thesis by simp
  qed
  also have "\<dots> = 2 powr of_int (53 + q)"
    by (simp add: powr_add)
  finally have "log 2 \<bar>x\<bar> < of_int (53 + q)"
    using pos by (simp add: log_less_iff)
  then have "\<lfloor>log 2 \<bar>x\<bar>\<rfloor> < 53 + q"
    by (simp add: floor_less_iff)
  then have u: "ulpExp x \<le> q"
    using q by (simp add: ulpExp_def)
  define d where "d = q - ulpExp x"
  have d: "0 \<le> d" using u by (simp add: d_def)
  have "x / 2 powr of_int (ulpExp x) = of_int m * 2 powr of_int d"
    by (simp add: x d_def powr_diff)
  also have "\<dots> = of_int (m * 2 ^ nat d)"
    using d by (simp add: two_powr_int)
  finally have r: "roundEven (x / 2 powr of_int (ulpExp x)) = m * 2 ^ nat d"
    by (simp only: roundEven_of_int)
  have "of_int (m * 2 ^ nat d) * (2::real) powr of_int (ulpExp x)
        = of_int m * (2 powr of_int d * 2 powr of_int (ulpExp x))"
    using d by (simp add: two_powr_int)
  also have "\<dots> = x"
    by (simp add: x d_def flip: powr_add)
  finally have y: "of_int (roundEven (x / 2 powr of_int (ulpExp x))) * 2 powr of_int (ulpExp x) = x"
    by (simp only: r)
  show ?thesis
    unfolding representable_def round64_def Let_def y using False b by simp
qed

lemma representable_int:
  assumes "\<bar>k\<bar> < 2 ^ 53"
  shows "representable (of_int k)"
proof (rule representable_dyadic [where m = k and q = 0])
  show "of_int k = of_int k * 2 powr of_int 0" by simp
  show "\<bar>k\<bar> < 2 ^ 53" by fact
  show "- 1074 \<le> (0::int)" by simp
  have "\<bar>of_int k :: real\<bar> < of_int (2 ^ 53)" using assms by (simp only: of_int_less_iff flip: of_int_abs)
  then show "\<bar>of_int k :: real\<bar> < 2 ^ 1024" by simp
qed

lemma floor_log2_le:
  assumes "x \<noteq> 0" and "\<bar>x\<bar> \<le> 2 ^ k"
  shows "\<lfloor>log 2 \<bar>x\<bar>\<rfloor> \<le> int k"
proof -
  have "\<bar>x\<bar> \<le> 2 powr real k" using assms(2) by (simp add: powr_realpow)
  then have "log 2 \<bar>x\<bar> \<le> real k" using assms(1) by (simp add: log_le_iff)
  then have "log 2 \<bar>x\<bar> < of_int (int k) + 1" by simp
  then show ?thesis by (simp only: floor_le_iff)
qed

lemma round64_bounded:
  assumes le: "\<bar>x\<bar> \<le> 2 ^ k" and k: "k \<le> 1023"
  shows "isFinite (round64 s x) \<and> \<bar>val (round64 s x)\<bar> \<le> 2 ^ k"
proof (cases "x = 0")
  case True
  then show ?thesis by (simp add: round64_def zero_def)
next
  case False
  define u :: real where "u = 2 powr of_int (ulpExp x)"
  have upos: "0 < u" by (simp add: u_def)
  have "ulpExp x \<le> int k"
    using floor_log2_le [OF False le] by (simp add: ulpExp_def)
  define d where "d = int k - ulpExp x"
  have d: "0 \<le> d" using \<open>ulpExp x \<le> int k\<close> by (simp add: d_def)
  have "(2::real) ^ k = 2 powr of_int (int k)" by (simp only: two_powr_nat)
  also have "\<dots> = 2 powr of_int d * u" by (simp add: d_def u_def flip: powr_add)
  also have "\<dots> = of_int (2 ^ nat d) * u" using d by (simp only: two_powr_int)
  finally have pk: "(2::real) ^ k = of_int (2 ^ nat d) * u" .
  have "x / u \<le> of_int (2 ^ nat d)" "of_int (- (2 ^ nat d)) \<le> x / u"
    using le upos pk by (simp_all add: field_simps abs_le_iff)
  then have "roundEven (x / u) \<le> 2 ^ nat d" "- (2 ^ nat d) \<le> roundEven (x / u)"
    by (simp_all only: roundEven_le roundEven_ge)
  then have "\<bar>roundEven (x / u)\<bar> \<le> 2 ^ nat d" by simp
  then have "\<bar>of_int (roundEven (x / u)) :: real\<bar> \<le> of_int (2 ^ nat d)"
    by (simp only: of_int_le_iff flip: of_int_abs)
  then have "\<bar>of_int (roundEven (x / u)) * u\<bar> \<le> of_int (2 ^ nat d) * u"
    using upos by (simp add: abs_mult)
  then have y: "\<bar>of_int (roundEven (x / u)) * u\<bar> \<le> 2 ^ k"
    by (simp only: pk)
  have "(2::real) ^ k \<le> 2 ^ 1023" using k by (intro power_increasing) simp_all
  then have "\<bar>of_int (roundEven (x / u)) * u\<bar> < 2 ^ 1024" using y by simp
  then show ?thesis
    using y False unfolding round64_def Let_def u_def [symmetric] by (simp add: zero_def)
qed



lemma round64_eval:
  assumes lo: "2 powr of_int e \<le> \<bar>x\<bar>" and hi: "\<bar>x\<bar> < 2 powr of_int (e + 1)"
    and e: "- 1022 \<le> e" "e < 1023"
  shows "round64 s x = Fin (of_int (roundEven (x / 2 powr of_int (e - 52))) * 2 powr of_int (e - 52))"
proof -
  define u :: real where "u = 2 powr of_int (e - 52)"
  have upos: "0 < u" by (simp add: u_def)
  have "(0::real) < 2 powr of_int e" by simp
  with lo have nz: "x \<noteq> 0" by auto
  have fl: "\<lfloor>log 2 \<bar>x\<bar>\<rfloor> = e" using lo hi by (rule floor_log2)
  have ue: "ulpExp x = e - 52" using e by (simp add: ulpExp_def fl)
  have pe: "2 powr of_int e = 2 ^ 52 * u" by (simp add: u_def powr_diff)
  have "2 ^ 52 \<le> \<bar>roundEven (x / u)\<bar>"
  proof (cases "0 < x")
    case True
    then have "of_int (2 ^ 52) \<le> x / u" using lo pe upos by (simp add: field_simps)
    then have "2 ^ 52 \<le> roundEven (x / u)" by (rule roundEven_ge)
    then show ?thesis by simp
  next
    case False
    then have "x / u \<le> of_int (- (2 ^ 52))" using lo pe upos nz by (simp add: field_simps)
    then have "roundEven (x / u) \<le> - (2 ^ 52)" by (rule roundEven_le)
    then show ?thesis by simp
  qed
  then have y0: "of_int (roundEven (x / u)) * u \<noteq> 0" using upos by auto
  have "(2::real) powr of_int (e + 1) \<le> 2 powr of_int (int 1023)"
    using e by (intro powr_mono) simp_all
  then have "\<bar>x\<bar> \<le> 2 powr of_int (int 1023)" using hi by simp
  then have "\<bar>x\<bar> \<le> 2 ^ 1023" by (simp only: two_powr_nat)
  then have "isFinite (round64 s x)" using round64_bounded [of x 1023 s] by simp
  then show ?thesis
    using nz y0 unfolding round64_def Let_def ue u_def [symmetric]
    by (auto simp: infinity_def split: if_splits)
qed

lemma round64_nonneg:
  assumes "0 \<le> x"
  shows "0 \<le> val (round64 s x)"
proof -
  have "0 \<le> x / 2 powr of_int (ulpExp x)" using assms by simp
  then have "of_int 0 \<le> x / 2 powr of_int (ulpExp x)" by simp
  then have "0 \<le> roundEven (x / 2 powr of_int (ulpExp x))" by (rule roundEven_ge)
  then show ?thesis
    by (simp add: round64_def Let_def zero_def infinity_def)
qed

lemma jadd_Fin [simp]: "jadd (Fin a) (Fin b) = round64 False (a + b)"
  by simp

lemma jsub_Fin [simp]: "jsub (Fin a) (Fin b) = round64 False (a - b)"
  by (simp add: jsub_def)

lemma jdiv_Fin: "b \<noteq> 0 \<Longrightarrow> jdiv (Fin a) (Fin b) = round64 ((a < 0) \<noteq> (b < 0)) (a / b)"
  by simp

lemma finite_cases: "isFinite x \<Longrightarrow> (\<And>a. x = Fin a \<Longrightarrow> P) \<Longrightarrow> (x = NegZero \<Longrightarrow> P) \<Longrightarrow> P"
  by (cases x) simp_all

lemma bounded_mono: "bounded k x \<Longrightarrow> k \<le> l \<Longrightarrow> bounded l x"
proof -
  assume a: "bounded k x" "k \<le> l"
  have "(2::real) ^ k \<le> 2 ^ l" using a(2) by (intro power_increasing) simp_all
  moreover have "\<bar>val x\<bar> \<le> 2 ^ k" using a(1) by (simp add: bounded_def)
  ultimately have "\<bar>val x\<bar> \<le> 2 ^ l" by (rule order_trans [rotated])
  then show ?thesis using a(1) by (simp add: bounded_def)
qed

lemma bounded_round64: "\<bar>x\<bar> \<le> 2 ^ k \<Longrightarrow> k \<le> 1023 \<Longrightarrow> bounded k (round64 s x)"
  using round64_bounded by (simp add: bounded_def)

lemma nonneg_round64: "0 \<le> x \<Longrightarrow> \<bar>x\<bar> \<le> 2 ^ k \<Longrightarrow> k \<le> 1023 \<Longrightarrow> nonneg (round64 s x)"
  using round64_bounded [of x k s] round64_nonneg [of x s] by (simp add: nonneg_def)

lemma bounded_jneg: "bounded k x \<Longrightarrow> bounded k (jneg x)"
  by (cases x) (simp_all add: bounded_def)

lemma jadd_finite:
  assumes "isFinite x" and "isFinite y"
  shows "jadd x y = NegZero \<and> val x + val y = 0 \<or> jadd x y = round64 False (val x + val y)"
  using assms by (cases x; cases y) simp_all

lemma abs_sum_bound:
  assumes "bounded k x" and "bounded k y"
  shows "\<bar>val x + val y\<bar> \<le> 2 ^ Suc k"
proof -
  have "\<bar>val x\<bar> \<le> 2 ^ k" "\<bar>val y\<bar> \<le> 2 ^ k" using assms by (simp_all add: bounded_def)
  moreover have "\<bar>val x + val y\<bar> \<le> \<bar>val x\<bar> + \<bar>val y\<bar>" by (rule abs_triangle_ineq)
  ultimately show ?thesis by simp
qed

lemma bounded_jadd:
  assumes "bounded k x" and "bounded k y" and "Suc k \<le> 1023"
  shows "bounded (Suc k) (jadd x y)"
proof -
  have "\<bar>val x + val y\<bar> \<le> 2 ^ Suc k" using assms(1,2) by (rule abs_sum_bound)
  then have "bounded (Suc k) (round64 False (val x + val y))" using assms(3) by (rule bounded_round64)
  moreover have "bounded (Suc k) NegZero" by (simp add: bounded_def)
  ultimately show ?thesis
    using jadd_finite [of x y] assms(1,2) by (auto simp: bounded_def)
qed

lemma nonneg_jadd:
  assumes "nonneg x" and "nonneg y" and "bounded k x" and "bounded k y" and "Suc k \<le> 1023"
  shows "nonneg (jadd x y)"
proof -
  have "\<bar>val x + val y\<bar> \<le> 2 ^ Suc k" using assms(3,4) by (rule abs_sum_bound)
  moreover have "0 \<le> val x + val y" using assms(1,2) by (simp add: nonneg_def)
  ultimately have "nonneg (round64 False (val x + val y))" using assms(5) by (intro nonneg_round64)
  moreover have "nonneg NegZero" by (simp add: nonneg_def)
  ultimately show ?thesis
    using jadd_finite [of x y] assms(1,2) by (auto simp: nonneg_def)
qed

lemma jdiv_finite:
  assumes "isFinite x" and "c \<noteq> 0"
  shows "jdiv x (Fin c) = round64 (negative x \<noteq> (c < 0)) (val x / c)"
  using assms by (cases x) simp_all

lemma jmul_finite:
  assumes "isFinite x"
  shows "jmul x (Fin c) = round64 (negative x \<noteq> (c < 0)) (val x * c)"
  using assms by (cases x) simp_all

section \<open>Percentiles\<close>

text \<open>
  The index is computed in the arithmetic of the format: the quotients \<open>95 / 100\<close> and
  \<open>99 / 100\<close> are rounded, and so are their products with the length.
\<close>

lemma ratio95: "round64 s (19 / 20) = Fin (4278419646001971 / 4503599627370496)"
  using round64_eval [of "- 1" "19 / 20" s] by (simp add: roundEven_def powr_minus)

lemma ratio99: "round64 s (99 / 100) = Fin (4458563631096791 / 4503599627370496)"
  using round64_eval [of "- 1" "99 / 100" s] by (simp add: roundEven_def powr_minus)

lemma ratio_one:
  "round64 s (4278419646001971 / 4503599627370496) = Fin (4278419646001971 / 4503599627370496)"
  "round64 s (4458563631096791 / 4503599627370496) = Fin (4458563631096791 / 4503599627370496)"
proof -
  have "representable (4278419646001971 / 4503599627370496)"
    by (rule representable_dyadic [where m = 4278419646001971 and q = "- 52"])
      (simp_all add: powr_minus)
  then show "round64 s (4278419646001971 / 4503599627370496)
             = Fin (4278419646001971 / 4503599627370496)"
    by (simp add: round64_representable)
  have "representable (4458563631096791 / 4503599627370496)"
    by (rule representable_dyadic [where m = 4458563631096791 and q = "- 52"])
      (simp_all add: powr_minus)
  then show "round64 s (4458563631096791 / 4503599627370496)
             = Fin (4458563631096791 / 4503599627370496)"
    by (simp add: round64_representable)
qed

lemma tenfold95: "round64 s (21392098230009855 / 2251799813685248) = Fin (19 / 2)"
  using round64_eval [of 3 "21392098230009855 / 2251799813685248" s]
  by (simp add: roundEven_def powr_minus)

lemma tenfold99:
  "round64 s (22292818155483955 / 2251799813685248) = Fin (5573204538870989 / 562949953421312)"
  using round64_eval [of 3 "22292818155483955 / 2251799813685248" s]
  by (simp add: roundEven_def powr_minus)

lemma hundredfold95: "round64 s (106960491150049275 / 1125899906842624) = Fin 95"
  using round64_eval [of 6 "106960491150049275 / 1125899906842624" s]
  by (simp add: roundEven_def powr_minus)

lemma hundredfold99: "round64 s (111464090777419775 / 1125899906842624) = Fin 99"
  using round64_eval [of 6 "111464090777419775 / 1125899906842624" s]
  by (simp add: roundEven_def powr_minus)

text \<open>On 100 samples the two indices are 95 and 99, inside the series.\<close>

lemma calculatePercentile_hundred:
  assumes "length vs = 100"
  shows "fst (calculatePercentile vs 95) = Some (num (Array_sort defaultCompare vs ! 95))"
    and "fst (calculatePercentile vs 99) = Some (num (Array_sort defaultCompare vs ! 99))"
  using assms
  by (simp_all add: calculatePercentile_def index_def Let_def jdiv_Fin jmul_finite
      ratio95 ratio99 hundredfold95 hundredfold99)

text \<open>
  Claim C2. On a non-empty series the 95th and the 99th percentile read the index
  \<open>\<lceil>p / 100 * length\<rceil>\<close> clamped to the last valid index, and so return an element of the
  series, never \<^verbatim>\<open>undefined\<close>.

  \<^verbatim>\<open>calculatePercentile\<close> does not clamp: on the ten samples of a combination, and on a
  single sample, both percentiles are \<^verbatim>\<open>undefined\<close>.
\<close>

theorem calculatePercentile_reads_past_end:
  "fst (calculatePercentile [1, 2, 3, 4, 5, 6, 7, 8, 9, 10] 95) = None
   \<and> fst (calculatePercentile [1, 2, 3, 4, 5, 6, 7, 8, 9, 10] 99) = None
   \<and> fst (calculatePercentile [5] 95) = None
   \<and> fst (calculatePercentile [5] 99) = None"
  by (simp add: calculatePercentile_def index_def Let_def jdiv_Fin jmul_finite
      ratio95 ratio99 ratio_one tenfold95 tenfold99)

section \<open>Dispersion\<close>







text \<open>Small integers are numbers of the format.\<close>

lemma round64_int:
  assumes "\<bar>k\<bar> < 2 ^ 53" and "k \<noteq> 0"
  shows "round64 s (of_int k) = Fin (of_int k)"
  using representable_int [OF assms(1)] assms(2) by (simp add: round64_representable)

lemma round64_zero [simp]: "round64 False 0 = Fin 0"
  by (simp add: round64_def zero_def)







text \<open>
  Bounds through the operations: finite operands of bounded magnitude give a finite
  result, as long as the bound stays below the largest binade of the format.
\<close>

lemma bounded_jsub:
  assumes "bounded k x" and "bounded k y" and "Suc k \<le> 1023"
  shows "bounded (Suc k) (jsub x y)"
  unfolding jsub_def using assms by (intro bounded_jadd bounded_jneg)

lemma Math_pow_finite:
  assumes "isFinite x"
  shows "Math_pow x n = round64 (negative x \<and> odd n) (val x ^ n)"
  using assms by (cases x) simp_all

lemma square_bounded:
  assumes "bounded k x" and "2 * k \<le> 1023"
  shows "nonneg (Math_pow x 2) \<and> bounded (2 * k) (Math_pow x 2)"
proof -
  have "\<bar>val x\<bar> ^ 2 \<le> (2 ^ k) ^ 2"
    using assms(1) by (intro power_mono) (simp_all add: bounded_def)
  then have le: "\<bar>val x ^ 2\<bar> \<le> 2 ^ (2 * k)"
    by (simp add: power_mult mult.commute)
  have "Math_pow x 2 = round64 (negative x \<and> odd (2::nat)) (val x ^ 2)"
    using assms(1) by (intro Math_pow_finite) (simp add: bounded_def)
  then show ?thesis
    using nonneg_round64 [OF _ le assms(2)] bounded_round64 [OF le assms(2)] by simp
qed

lemma foldl_jadd_bounded:
  assumes "\<forall>x \<in> set xs. nonneg x \<and> bounded K x"
    and "nonneg acc" and "bounded (K + i) acc" and "K + i + length xs \<le> 1023"
  shows "nonneg (foldl (\<lambda>a b. jadd a b) acc xs)
         \<and> bounded (K + i + length xs) (foldl (\<lambda>a b. jadd a b) acc xs)"
  using assms
proof (induction xs arbitrary: acc i)
  case Nil
  then show ?case by simp
next
  case (Cons x xs)
  have x: "nonneg x" "bounded (K + i) x"
    using Cons.prems(1) by (auto intro: bounded_mono)
  have s: "Suc (K + i) \<le> 1023" using Cons.prems(4) by simp
  have "nonneg (jadd acc x)"
    using Cons.prems(2) x(1) Cons.prems(3) x(2) s by (rule nonneg_jadd)
  moreover have "bounded (K + Suc i) (jadd acc x)"
    using bounded_jadd [OF Cons.prems(3) x(2) s] by simp
  moreover have "\<forall>x \<in> set xs. nonneg x \<and> bounded K x"
    using Cons.prems(1) by simp
  moreover have "K + Suc i + length xs \<le> 1023"
    using Cons.prems(4) by simp
  ultimately have "nonneg (foldl (\<lambda>a b. jadd a b) (jadd acc x) xs)
      \<and> bounded (K + Suc i + length xs) (foldl (\<lambda>a b. jadd a b) (jadd acc x) xs)"
    by (intro Cons.IH)
  then show ?case by simp
qed

lemma jdiv_count_bounded:
  assumes "nonneg x" and "bounded K x" and "1 \<le> c" and "K \<le> 1023"
  shows "nonneg (jdiv x (Fin c)) \<and> bounded K (jdiv x (Fin c))"
proof -
  have v: "0 \<le> val x" "val x \<le> 2 ^ K" and f: "isFinite x"
    using assms(1,2) by (simp_all add: nonneg_def bounded_def)
  have "val x / c \<le> val x / 1"
    using assms(3) v(1) by (intro divide_left_mono) simp_all
  then have le: "\<bar>val x / c\<bar> \<le> 2 ^ K" and ge: "0 \<le> val x / c"
    using v assms(3) by simp_all
  have "jdiv x (Fin c) = round64 (negative x \<noteq> (c < 0)) (val x / c)"
    using f assms(3) by (intro jdiv_finite) simp_all
  then show ?thesis
    using nonneg_round64 [OF ge le assms(4)] bounded_round64 [OF le assms(4)] by simp
qed

lemma Math_sqrt_bounded:
  assumes "nonneg x" and "bounded K x" and "K \<le> 1023"
  shows "bounded K (Math_sqrt x)"
proof (cases x rule: finite_cases)
  show "isFinite x" using assms(1) by (simp add: nonneg_def)
next
  fix a assume x: "x = Fin a"
  then have a: "0 \<le> a" "a \<le> 2 ^ K" using assms(1,2) by (simp_all add: nonneg_def bounded_def)
  have "(2::real) ^ K \<le> (2 ^ K) ^ 2"
    by (simp add: power2_eq_square)
  then have "sqrt a \<le> 2 ^ K"
    using a by (intro real_le_lsqrt) simp_all
  then have "\<bar>sqrt a\<bar> \<le> 2 ^ K" using a(1) by simp
  then show ?thesis
    using x a(1) bounded_round64 [OF _ assms(3)] by simp
next
  assume "x = NegZero"
  then show ?thesis by (simp add: bounded_def)
qed

lemma jdiv_bounded:
  assumes "bounded K x" and "1 \<le> \<bar>c\<bar> * 2 ^ m" and "K + m \<le> 1023"
  shows "bounded (K + m) (jdiv x (Fin c))"
proof -
  have c: "c \<noteq> 0" using assms(2) by auto
  have v: "\<bar>val x\<bar> \<le> 2 ^ K" and f: "isFinite x" using assms(1) by (simp_all add: bounded_def)
  have "\<bar>val x\<bar> * 1 \<le> 2 ^ K * (\<bar>c\<bar> * 2 ^ m)"
    using v assms(2) by (intro mult_mono) simp_all
  then have "\<bar>val x / c\<bar> \<le> 2 ^ (K + m)"
    using c by (simp add: field_simps power_add abs_mult)
  then have "bounded (K + m) (round64 (negative x \<noteq> (c < 0)) (val x / c))"
    using assms(3) by (rule bounded_round64)
  then show ?thesis using jdiv_finite [OF f c] by simp
qed

lemma jmul_bounded:
  assumes "bounded K x" and "\<bar>c\<bar> \<le> 2 ^ m" and "K + m \<le> 1023"
  shows "bounded (K + m) (jmul x (Fin c))"
proof -
  have v: "\<bar>val x\<bar> \<le> 2 ^ K" and f: "isFinite x" using assms(1) by (simp_all add: bounded_def)
  have "\<bar>val x\<bar> * \<bar>c\<bar> \<le> 2 ^ K * 2 ^ m"
    using v assms(2) by (intro mult_mono) simp_all
  then have "\<bar>val x * c\<bar> \<le> 2 ^ (K + m)"
    by (simp add: power_add abs_mult)
  then have "bounded (K + m) (round64 (negative x \<noteq> (c < 0)) (val x * c))"
    using assms(3) by (rule bounded_round64)
  then show ?thesis using jmul_finite [OF f] by simp
qed

text \<open>
  The deviation of a series of finite numbers around a finite average is finite, when
  the squares are far from overflowing.
\<close>

lemma deviation_bounded:
  assumes el: "\<forall>v \<in> set vs. bounded k v" and avg: "calculateAverage vs = a" "bounded k a"
    and ne: "vs \<noteq> []" and k: "2 * Suc k + length vs \<le> 1023"
  shows "bounded (2 * Suc k + length vs) (calculateStandardDeviation vs)"
proof -
  let ?sq = "map (\<lambda>value. Math_pow (jsub value a) 2) vs"
  have "nonneg x \<and> bounded (2 * Suc k) x" if "x \<in> set ?sq" for x
  proof -
    from that obtain v where v: "v \<in> set vs" and x: "x = Math_pow (jsub v a) 2" by auto
    have "bounded (Suc k) (jsub v a)"
      using el v avg(2) k by (intro bounded_jsub) simp_all
    then show ?thesis
      unfolding x using k by (intro square_bounded) simp_all
  qed
  then have "\<forall>x \<in> set ?sq. nonneg x \<and> bounded (2 * Suc k) x" by blast
  moreover have "nonneg (Fin 0)" "bounded (2 * Suc k + 0) (Fin 0)"
    by (simp_all add: nonneg_def bounded_def)
  moreover have "2 * Suc k + 0 + length ?sq \<le> 1023" using k by simp
  ultimately have s: "nonneg (foldl (\<lambda>a b. jadd a b) (Fin 0) ?sq)
      \<and> bounded (2 * Suc k + 0 + length ?sq) (foldl (\<lambda>a b. jadd a b) (Fin 0) ?sq)"
    by (rule foldl_jadd_bounded)
  have "1 \<le> real (length ?sq)" using ne by (cases vs) simp_all
  then have "nonneg (calculateAverage ?sq) \<and> bounded (2 * Suc k + 0 + length ?sq) (calculateAverage ?sq)"
    unfolding calculateAverage_def using s k by (intro jdiv_count_bounded) simp_all
  then have "bounded (2 * Suc k + 0 + length ?sq) (Math_sqrt (calculateAverage ?sq))"
    using k by (intro Math_sqrt_bounded) simp_all
  then show ?thesis
    by (simp add: calculateStandardDeviation_def avg(1))
qed

text \<open>
  Claim C10. On a non-empty series with mean 0 the coefficient of variation
  \<open>standardDeviation / average * 100\<close> is a non-finite value, and no error is raised; with
  a mean other than 0 it is the value of the formula.

  The series \<open>2 ^ 53\<close>, 1, \<open>- 2 ^ 53\<close>, \<open>- 1\<close> has mean 0. The code adds in the format:
  \<open>2 ^ 53 + 1\<close> is rounded to \<open>2 ^ 53\<close>, the sum is \<open>- 1\<close> and the average \<open>- 1 / 4\<close>, and
  the coefficient of variation is a finite number.
\<close>

theorem calculateVariationCoefficient_rounded_mean:
  "mean [2 ^ 53, 1, - (2 ^ 53), - 1] = 0
   \<and> calculateAverage (map Fin [2 ^ 53, 1, - (2 ^ 53), - 1]) = Fin (- 1 / 4)
   \<and> isFinite (calculateVariationCoefficient (map Fin [2 ^ 53, 1, - (2 ^ 53), - 1]))"
proof -
  let ?vs = "map Fin [2 ^ 53, 1, - (2 ^ 53), - 1]"
  have r1: "round64 s 9007199254740992 = Fin 9007199254740992" for s
  proof -
    have "representable 9007199254740992"
      by (rule representable_dyadic [where m = 1 and q = 53]) simp_all
    then show ?thesis by (simp add: round64_representable)
  qed
  have r2: "round64 s 9007199254740993 = Fin 9007199254740992" for s
    using round64_eval [of 53 9007199254740993 s] by (simp add: roundEven_def)
  have r3: "round64 s (- 1) = Fin (- 1)" for s
    using round64_int [of "- 1" s] by simp
  have r4: "round64 s (- (1 / 4)) = Fin (- (1 / 4))" for s
  proof -
    have "representable (- (1 / 4))"
      by (rule representable_dyadic [where m = "- 1" and q = "- 2"]) (simp_all add: powr_minus)
    then show ?thesis by (simp add: round64_representable)
  qed
  have m: "mean [2 ^ 53, 1, - (2 ^ 53), - 1] = 0"
    by (simp add: mean_def)
  have avg: "calculateAverage ?vs = Fin (- 1 / 4)"
    by (simp add: calculateAverage_def r1 r2 r3 r4)
  have el: "\<forall>v \<in> set ?vs. bounded 53 v"
    by (simp add: bounded_def)
  have "bounded 53 (Fin (- 1 / 4))"
    by (simp add: bounded_def)
  with el avg have "bounded (2 * Suc 53 + length ?vs) (calculateStandardDeviation ?vs)"
    by (rule deviation_bounded) simp_all
  then have "bounded 112 (calculateStandardDeviation ?vs)" by simp
  then have "bounded (112 + 2) (jdiv (calculateStandardDeviation ?vs) (Fin (- 1 / 4)))"
    by (rule jdiv_bounded) simp_all
  then have "bounded (112 + 2 + 7) (jmul (jdiv (calculateStandardDeviation ?vs) (Fin (- 1 / 4))) (Fin 100))"
    by (rule jmul_bounded) simp_all
  then have "isFinite (calculateVariationCoefficient ?vs)"
    unfolding calculateVariationCoefficient_def Let_def avg by (simp add: bounded_def)
  with m avg show ?thesis by simp
qed

text \<open>A quotient by a zero, and its product with 100, are not finite.\<close>

lemma jdiv_zero_not_finite:
  assumes "y = Fin 0 \<or> y = NegZero"
  shows "\<not> isFinite (jdiv x y)"
  using assms by (cases x) (auto simp: infinity_def split: if_splits)

lemma jmul_not_finite:
  assumes "\<not> isFinite x" and "c \<noteq> 0"
  shows "\<not> isFinite (jmul x (Fin c))"
  using assms by (cases x) (simp_all add: infinity_def)

text \<open>
  Claim C10, as the code has it. On every series of which the average, as the code
  computes it in the arithmetic of the format, is a zero, the coefficient of variation is
  a non-finite value, and no error is raised; on every series it is the value of
  \<open>standardDeviation / average * 100\<close> in that arithmetic.
\<close>

theorem calculateVariationCoefficient_formula:
  "(calculateAverage vs = Fin 0 \<or> calculateAverage vs = NegZero
      \<longrightarrow> \<not> isFinite (calculateVariationCoefficient vs))
   \<and> calculateVariationCoefficient vs
     = jmul (jdiv (calculateStandardDeviation vs) (calculateAverage vs)) (Fin 100)"
proof -
  have "\<not> isFinite (jmul (jdiv (calculateStandardDeviation vs) (calculateAverage vs)) (Fin 100))"
    if "calculateAverage vs = Fin 0 \<or> calculateAverage vs = NegZero"
    using that by (intro jmul_not_finite jdiv_zero_not_finite) simp_all
  then show ?thesis
    by (simp add: calculateVariationCoefficient_def Let_def)
qed

theorem calculateVariationCoefficient_formula_witness:
  "calculateAverage (map Fin [- 5, 5]) = Fin 0
   \<and> \<not> isFinite (calculateVariationCoefficient (map Fin [- 5, 5]))"
proof -
  have "round64 s (- 5) = Fin (- 5)" for s
    using round64_int [of "- 5" s] by simp
  then have a: "calculateAverage (map Fin [- 5, 5]) = Fin 0"
    by (simp add: calculateAverage_def)
  with calculateVariationCoefficient_formula [of "map Fin [- 5, 5]"]
  have "\<not> isFinite (calculateVariationCoefficient (map Fin [- 5, 5]))"
    by blast
  with a show ?thesis by (rule conjI)
qed

section \<open>The run loop\<close>

text \<open>
  From index \<open>i\<close> the loop accepts the first \<open>n - i\<close> successful outcomes, provided the
  sequence holds that many, and names their reports \<open>i.json\<close> to \<open>(n - 1).json\<close>.
\<close>

lemma runLoop_accepts:
  assumes "nat (n - i) \<le> length (accepted outs)"
  shows "\<exists>s'. runLoop n i outs s = Some s'
           \<and> results s' = results s @ take (nat (n - i)) (accepted outs)
           \<and> map fst (written s') = map fst (written s) @ map (\<lambda>k. numberToString k @ ''.json'') [i..n - 1]"
  using assms
proof (induction outs arbitrary: i s)
  case Nil
  then show ?case by simp
next
  case (Cons a rest)
  show ?case
  proof (cases "i < n")
    case False
    then show ?thesis by simp
  next
    case True
    let ?s1 = "s\<lparr>runBar := runBar s + 1, effects := effects s @ [BarIncrement, Lighthouse]\<rparr>"
    show ?thesis
    proof (cases "accepted [a] = []")
      case True
      then have acc: "accepted (a # rest) = accepted rest"
        by (cases a) (auto split: option.splits)
      from True have step: "runLoop n i (a # rest) s = runLoop n i rest ?s1"
        using \<open>i < n\<close> by (cases a) (auto split: option.splits)
      from Cons.prems acc have "nat (n - i) \<le> length (accepted rest)" by simp
      from Cons.IH [OF this, of ?s1] show ?thesis
        by (simp only: step acc) simp
    next
      case False
      then obtain r where a: "a = Some r" and ok: "runtimeError (lhr r) = None"
        by (cases a) (auto split: option.splits)
      let ?s2 = "?s1\<lparr>results := results ?s1 @ [lhr r],
                    written := written ?s1 @ [(numberToString i @ ''.json'', report r)],
                    effects := effects ?s1 @ [ResultsPush, WriteFile (numberToString i @ ''.json'')]\<rparr>"
      have acc: "accepted (a # rest) = lhr r # accepted rest"
        using a ok by simp
      have step: "runLoop n i (a # rest) s = runLoop n (i + 1) rest ?s2"
        using \<open>i < n\<close> a ok by (simp add: Let_def)
      from Cons.prems acc \<open>i < n\<close> have "nat (n - (i + 1)) \<le> length (accepted rest)" by simp
      from Cons.IH [OF this, of ?s2] obtain s' where
        s': "runLoop n (i + 1) rest ?s2 = Some s'"
        "results s' = results ?s2 @ take (nat (n - (i + 1))) (accepted rest)"
        "map fst (written s') = map fst (written ?s2) @ map (\<lambda>k. numberToString k @ ''.json'') [i + 1..n - 1]"
        by blast
      have "nat (n - i) = Suc (nat (n - (i + 1)))"
        using \<open>i < n\<close> by simp
      then have t: "take (nat (n - i)) (lhr r # accepted rest) = lhr r # take (nat (n - (i + 1))) (accepted rest)"
        by (simp only: take_Suc_Cons)
      have u: "[i..n - 1] = i # [i + 1..n - 1]"
        using \<open>i < n\<close> by (simp add: upto_rec1)
      from s' show ?thesis
        unfolding step acc t u by simp
    qed
  qed
qed

lemma runLoop_retry:
  assumes "accepted [a] = []" and "i < n"
  shows "runLoop n i (a # rest) s
         = runLoop n i rest (s\<lparr>runBar := runBar s + 1, effects := effects s @ [BarIncrement, Lighthouse]\<rparr>)"
  using assms by (cases a) (auto split: option.splits)

text \<open>
  Claim C4. On every sequence of outcomes with at least \<open>N\<close> successes the loop returns
  after accepting exactly \<open>N\<close> results, the first \<open>N\<close> successes in their order. An
  attempt with a runtime error or without result leaves the loop index where it was and
  adds no result: after two failures and one success the quota is used by 1, the
  report being \<open>0.json\<close>.
\<close>

theorem runLoop_accepts_exactly_n:
  assumes "n \<le> length (accepted outs)"
  shows "(\<exists>s. runLoop (int n) 0 outs initialState = Some s
            \<and> results s = take n (accepted outs) \<and> length (results s) = n
            \<and> map fst (written s) = map (\<lambda>k. numberToString (int k) @ ''.json'') [0..<n])
       \<and> (\<forall>a rest i s. accepted [a] = [] \<and> i < int n \<longrightarrow>
             runLoop (int n) i (a # rest) s
             = runLoop (int n) i rest
                 (s\<lparr>runBar := runBar s + 1, effects := effects s @ [BarIncrement, Lighthouse]\<rparr>))"
proof -
  from assms have "nat (int n - 0) \<le> length (accepted outs)" by simp
  from runLoop_accepts [OF this, of initialState] obtain s where
    s: "runLoop (int n) 0 outs initialState = Some s"
    "results s = results initialState @ take (nat (int n - 0)) (accepted outs)"
    "map fst (written s) = map fst (written initialState) @ map (\<lambda>k. numberToString k @ ''.json'') [0..int n - 1]"
    by blast
  have "[0..int n - 1] = map int [0..<n]"
    by (induction n) (simp_all add: upto_rec2)
  with s assms have "results s = take n (accepted outs) \<and> length (results s) = n
    \<and> map fst (written s) = map (\<lambda>k. numberToString (int k) @ ''.json'') [0..<n]"
    by (simp add: initialState_def comp_def)
  with s(1) show ?thesis
    using runLoop_retry by blast
qed

theorem runLoop_accepts_exactly_n_witness:
  "1 \<le> length (accepted [None, Some failedRun, Some okRun])
   \<and> map_option results (runLoop 1 0 [None, Some failedRun, Some okRun] initialState) = Some [lhr okRun]
   \<and> map_option (map fst \<circ> written) (runLoop 1 0 [None, Some failedRun, Some okRun] initialState) = Some [''0.json'']"
proof -
  have a: "accepted [None, Some failedRun, Some okRun] = [lhr okRun]"
    by (simp add: failedRun_def okRun_def runRecord_def)
  have n: "numberToString 0 = ''0''"
    by code_simp
  show ?thesis
    using runLoop_accepts_exactly_n [of 1 "[None, Some failedRun, Some okRun]"] a n
    by auto
qed

text \<open>
  Claim C8. The progress observer receives one increment per accepted run, after the run
  is accepted, and none for an attempt that fails.

  The loop increments the bar at the head of every iteration, before the audit is called:
  two failures and a success give three increments for one accepted run, and a failure
  followed by the ten successes of a combination gives eleven increments on a bar whose
  total is ten.
\<close>

theorem runLoop_increments_every_attempt:
  "runLoop 1 0 [None, Some failedRun, Some okRun] initialState
   = Some \<lparr>results = [lhr okRun], runBar = 3, written = [(''0.json'', report okRun)],
           effects = [BarIncrement, Lighthouse, BarIncrement, Lighthouse, BarIncrement, Lighthouse,
                      ResultsPush, WriteFile ''0.json'']\<rparr>
   \<and> map_option runBar (runLoop runsPerPage 0 (Some failedRun # replicate 10 (Some okRun)) initialState) = Some 11
   \<and> map_option (length \<circ> results) (runLoop runsPerPage 0 (Some failedRun # replicate 10 (Some okRun)) initialState) = Some 10"
  by code_simp

section \<open>Grouping and summaries\<close>

text \<open>
  The grouping never throws: the array of a key is created before it is read. Its result
  holds, for every metric, the values that the test of the inner loop lets through.
\<close>

lemma map_of_Map_set [simp]: "map_of (Map_set m k v) = (map_of m)(k \<mapsto> v)"
  by (induction m) (auto simp: fun_eq_iff)

lemma keys_Map_set:
  "map fst (Map_set m k v) = (if k \<in> set (map fst m) then map fst m else map fst m @ [k])"
  by (induction m) auto

lemma values_Map_set: "snd ` set (Map_set m k v) \<subseteq> insert v (snd ` set m)"
  by (induction m) auto

lemma values_Map_set_absent:
  "k \<notin> set (map fst m) \<Longrightarrow> set (Map_set m k v) = insert (k, v) (set m)"
  by (induction m) auto

lemma values_Map_set_twice:
  "snd ` set (Map_set (Map_set m k u) k v) \<subseteq> insert v (snd ` set m)"
  by (induction m) auto

lemma distinct_Map_set: "distinct (map fst m) \<Longrightarrow> distinct (map fst (Map_set m k v))"
  by (simp add: keys_Map_set)

lemma collectAudit_step:
  assumes "seriesMap m"
  shows "\<exists>m'. collectAudit m e = Inr m' \<and> seriesMap m'
              \<and> (\<forall>k. series m' k = series m k @ kept k e)"
proof (cases e)
  case (Pair audit a)
  show ?thesis
  proof (cases "numericValue a")
    case None
    then show ?thesis using assms Pair by (simp add: collectAudit_def)
  next
    case (Some v)
    show ?thesis
    proof (cases "v = 0")
      case True
      then show ?thesis using assms Pair Some by (simp add: collectAudit_def)
    next
      case False
      show ?thesis
      proof (cases "Map_has m audit")
        case True
        then obtain arr where arr: "map_of m audit = Some arr"
          by (auto simp: Map_has_def dest: weak_map_of_SomeI)
        have c: "collectAudit m e = Inr (Map_set m audit (arr @ [v]))"
          using Pair Some False True arr by (simp add: collectAudit_def Map_get_def)
        have "seriesMap (Map_set m audit (arr @ [v]))"
          using assms values_Map_set [of m audit "arr @ [v]"]
          by (auto simp: seriesMap_def distinct_Map_set)
        moreover have "series (Map_set m audit (arr @ [v])) k = series m k @ kept k e" for k
          using Pair Some False arr by (auto simp: series_def)
        ultimately show ?thesis using c by blast
      next
        case absent: False
        then have none: "map_of m audit = None"
          by (simp add: Map_has_def map_of_eq_None_iff)
        have c: "collectAudit m e = Inr (Map_set (Map_set m audit []) audit [v])"
          using Pair Some False absent by (simp add: collectAudit_def Map_get_def)
        have "distinct (map fst (Map_set (Map_set m audit []) audit [v]))"
          using assms by (simp add: seriesMap_def distinct_Map_set)
        moreover have "[] \<notin> snd ` set (Map_set (Map_set m audit []) audit [v])"
          using assms values_Map_set_twice [of m audit "[]" "[v]"]
          by (auto simp: seriesMap_def)
        moreover have "series (Map_set (Map_set m audit []) audit [v]) k = series m k @ kept k e" for k
          using Pair Some False none by (auto simp: series_def)
        ultimately show ?thesis using c by (simp add: seriesMap_def)
      qed
    qed
  qed
qed

lemma collect_result:
  assumes "seriesMap m"
  shows "\<exists>m'. forEach collectAudit es m = Inr m' \<and> seriesMap m'
              \<and> (\<forall>k. series m' k = series m k @ concat (map (kept k) es))"
  using assms
proof (induction es arbitrary: m)
  case Nil
  then show ?case by simp
next
  case (Cons e es)
  from collectAudit_step [OF Cons.prems, of e] obtain m1 where
    m1: "collectAudit m e = Inr m1" "seriesMap m1" "\<forall>k. series m1 k = series m k @ kept k e"
    by blast
  from Cons.IH [OF m1(2)] obtain m2 where
    m2: "forEach collectAudit es m1 = Inr m2" "seriesMap m2"
        "\<forall>k. series m2 k = series m1 k @ concat (map (kept k) es)"
    by blast
  from m1 m2 show ?case by simp
qed

lemma collect_results:
  assumes "seriesMap m"
  shows "\<exists>m'. forEach (\<lambda>m r. forEach collectAudit (audits r) m) rs m = Inr m' \<and> seriesMap m'
              \<and> (\<forall>k. series m' k = series m k @ keptValues k rs)"
  using assms
proof (induction rs arbitrary: m)
  case Nil
  then show ?case by (simp add: keptValues_def)
next
  case (Cons r rs)
  from collect_result [OF Cons.prems, of "audits r"] obtain m1 where
    m1: "forEach collectAudit (audits r) m = Inr m1" "seriesMap m1"
        "\<forall>k. series m1 k = series m k @ concat (map (kept k) (audits r))"
    by blast
  from Cons.IH [OF m1(2)] obtain m2 where
    m2: "forEach (\<lambda>m r. forEach collectAudit (audits r) m) rs m1 = Inr m2" "seriesMap m2"
        "\<forall>k. series m2 k = series m1 k @ keptValues k rs"
    by blast
  from m1 m2 show ?case by (simp add: keptValues_def)
qed

lemma groupAudits_series:
  "\<exists>m. groupAudits rs = Inr m \<and> distinct (map fst m)
       \<and> (\<forall>k. map_of m k = (if keptValues k rs = [] then None else Some (keptValues k rs)))"
proof -
  have "seriesMap []" by (simp add: seriesMap_def)
  from collect_results [OF this, of rs] obtain m where
    m: "groupAudits rs = Inr m" "seriesMap m" "\<forall>k. series m k = keptValues k rs"
    by (auto simp: groupAudits_def series_def)
  have "map_of m k = (if keptValues k rs = [] then None else Some (keptValues k rs))" for k
  proof (cases "map_of m k")
    case None
    then have "series m k = []" by (simp add: series_def)
    with m(3) have "keptValues k rs = []" by simp
    with None show ?thesis by simp
  next
    case (Some vs)
    then have "(k, vs) \<in> set m" by (rule map_of_SomeD)
    then have "vs \<noteq> []" using m(2) by (force simp: seriesMap_def)
    moreover have "series m k = vs" using Some by (simp add: series_def)
    then have "vs = keptValues k rs" using m(3) by simp
    ultimately show ?thesis using Some by simp
  qed
  with m show ?thesis by (auto simp: seriesMap_def)
qed

text \<open>
  The summaries: one per key of the grouping, computed on the kept values of the key. The
  \<^verbatim>\<open>values\<close> field of a summary is the series as the in-place sorts have left it, in
  the order of the decimal texts; the average is taken before the first sort.
\<close>

lemma sort_default_again:
  "Array_sort defaultCompare (Array_sort defaultCompare vs) = Array_sort defaultCompare vs"
  by (simp add: Array_sort_default sort_key_id_if_sorted)

lemma summarize_values: "values_raw (summarize vs) = Array_sort defaultCompare vs"
  by (simp add: summarize_def calculateMedian_def calculatePercentile_def Let_def sort_default_again)

lemma summarize_average: "average (summarize vs) = calculateAverage (map num vs)"
  by (simp add: summarize_def Let_def split_def)

lemma parseResults_summaries:
  "\<exists>m. parseResults rs = Inr (map (\<lambda>(audit, vs). (audit, summarize vs)) m)
       \<and> distinct (map fst m)
       \<and> (\<forall>k. map_of m k = (if keptValues k rs = [] then None else Some (keptValues k rs)))"
  using groupAudits_series [of rs] by (auto simp: parseResults_def)

text \<open>
  Claim C3. A numeric value equal to 0 is included in the series of its metric: the
  aggregate of the values 0 and 10 has average 5.

  The inner loop tests the truthiness of \<^verbatim>\<open>numericValue\<close>, and 0 is falsy: of the values
  0 and 10 only 10 is kept, and the average is 10.
\<close>

theorem parseResults_excludes_zero:
  "\<exists>s. parseResults [runRecord [(''m'', Some 0)], runRecord [(''m'', Some 10)]] = Inr [(''m'', s)]
       \<and> values_raw s = [10] \<and> average s = Fin 10"
proof -
  have "groupAudits [runRecord [(''m'', Some 0)], runRecord [(''m'', Some 10)]] = Inr [(''m'', [10])]"
    by code_simp
  moreover have "Array_sort defaultCompare [10] = [10]"
    by code_simp
  moreover have "calculateAverage (map num [10]) = Fin 10"
  proof -
    have "representable 10"
      using representable_int [of 10] by simp
    then have "round64 s 10 = Fin 10" for s
      by (simp add: round64_representable)
    then show ?thesis
      by (simp add: calculateAverage_def num_def)
  qed
  ultimately show ?thesis
    by (simp add: parseResults_def summarize_values summarize_average)
qed

text \<open>
  Claim C5. A metric is in the result of the aggregator exactly when some run reports a
  numeric value for it, and a metric reported by \<open>J\<close> of \<open>K\<close> runs has a series of length
  \<open>J\<close>.

  A metric whose only value is 0 is absent from the result, and a metric that two of three
  runs report, once with the value 0, has a series of length 1: the test of the inner loop
  drops the zeros (see claim C3).
\<close>

theorem parseResults_zero_is_no_occurrence:
  "parseResults [runRecord [(''m'', Some 0)]] = Inr []
   \<and> (\<exists>s. parseResults [runRecord [(''m'', Some 0)], runRecord [(''m'', Some 7)], runRecord []]
            = Inr [(''m'', s)]
          \<and> length (values_raw s) = 1)"
proof -
  have "groupAudits [runRecord [(''m'', Some 0)]] = Inr []"
    by code_simp
  moreover have "groupAudits [runRecord [(''m'', Some 0)], runRecord [(''m'', Some 7)], runRecord []]
                 = Inr [(''m'', [7])]"
    by code_simp
  ultimately show ?thesis
    by (simp add: parseResults_def summarize_values)
qed

text \<open>
  Claim C6. The series of a metric, and the raw values of its summary, list the values in
  the order of the runs, not sorted.

  The grouping keeps the order of the runs, but \<^verbatim>\<open>calculateMedian\<close> and
  \<^verbatim>\<open>calculatePercentile\<close> sort in place the array that the \<^verbatim>\<open>values\<close> field refers to:
  the values 2 and 10 of two runs are reported as 10, 2.
\<close>

theorem parseResults_values_in_text_order:
  "groupAudits [runRecord [(''m'', Some 2)], runRecord [(''m'', Some 10)]] = Inr [(''m'', [2, 10])]
   \<and> (\<exists>s. parseResults [runRecord [(''m'', Some 2)], runRecord [(''m'', Some 10)]] = Inr [(''m'', s)]
          \<and> values_raw s = [10, 2])"
proof -
  have "groupAudits [runRecord [(''m'', Some 2)], runRecord [(''m'', Some 10)]] = Inr [(''m'', [2, 10])]"
    by code_simp
  moreover have "Array_sort defaultCompare [2, 10] = [10, 2]"
    by code_simp
  ultimately show ?thesis
    by (simp add: parseResults_def summarize_values)
qed

section \<open>The rows of the report\<close>

text \<open>
  Sorting with a comparator that is total and transitive gives a list in the order of
  the comparator; where the comparator tells the elements apart, there is one such list.
\<close>

lemma set_insertBy [simp]: "set (insertBy cmp x xs) = insert x (set xs)"
  by (induction xs) auto

lemma sorted_insertBy:
  assumes total: "\<forall>a b. cmp a b \<le> 0 \<or> cmp b a \<le> 0"
    and trans: "\<forall>a b c. cmp a b \<le> 0 \<and> cmp b c \<le> 0 \<longrightarrow> cmp a c \<le> 0"
    and "sorted_wrt (\<lambda>a b. cmp a b \<le> 0) xs"
  shows "sorted_wrt (\<lambda>a b. cmp a b \<le> 0) (insertBy cmp x xs)"
  using assms(3)
proof (induction xs)
  case Nil
  then show ?case by simp
next
  case (Cons y ys)
  show ?case
  proof (cases "cmp x y \<le> 0")
    case True
    then have "cmp x z \<le> 0" if "z \<in> set ys" for z
      using Cons.prems that trans by (meson sorted_wrt.simps(2))
    then show ?thesis using True Cons.prems by simp
  next
    case False
    then have "cmp y x \<le> 0" using total by blast
    then show ?thesis using False Cons by simp
  qed
qed

lemma sorted_Array_sort:
  assumes "\<forall>a b. cmp a b \<le> 0 \<or> cmp b a \<le> 0"
    and "\<forall>a b c. cmp a b \<le> 0 \<and> cmp b c \<le> 0 \<longrightarrow> cmp a c \<le> 0"
  shows "sorted_wrt (\<lambda>a b. cmp a b \<le> 0) (Array_sort cmp xs)"
  by (induction xs) (simp_all add: Array_sort_def sorted_insertBy [OF assms])

lemma sorted_unique:
  assumes "sorted_wrt le xs" and "sorted_wrt le ys" and "mset xs = mset ys"
    and "\<forall>a \<in> set xs. \<forall>b \<in> set xs. le a b \<and> le b a \<longrightarrow> a = b"
    and "\<forall>a \<in> set xs. le a a"
  shows "xs = ys"
  using assms
proof (induction xs arbitrary: ys)
  case Nil
  then show ?case by simp
next
  case (Cons x xs)
  from Cons.prems(3) obtain y ys' where ys: "ys = y # ys'"
    by (cases ys) auto
  have sets: "set (x # xs) = set (y # ys')"
    using Cons.prems(3) ys by (metis mset_eq_setD)
  have "le x y"
    using Cons.prems(1,5) sets by (cases "y = x") auto
  moreover have "le y x"
    using Cons.prems(2,5) sets ys by (cases "y = x") auto
  ultimately have xy: "x = y"
    using Cons.prems(4) sets by auto
  then have "mset xs = mset ys'" using Cons.prems(3) ys by simp
  moreover have "sorted_wrt le xs" "sorted_wrt le ys'"
    using Cons.prems(1,2) ys by simp_all
  moreover have "\<forall>a \<in> set xs. \<forall>b \<in> set xs. le a b \<and> le b a \<longrightarrow> a = b" "\<forall>a \<in> set xs. le a a"
    using Cons.prems(4,5) by simp_all
  ultimately have "xs = ys'" by (intro Cons.IH)
  with xy ys show ?case by simp
qed

text \<open>
  Claim C7. \<^verbatim>\<open>resultToCsv\<close> selects exactly the metrics with a defined numeric value, 0
  included, orders them by name in ascending lexicographic order whatever the order in
  which the run emitted them, and writes the names and the values, joined by commas, in
  matching columns.

  The names are ordered by \<^verbatim>\<open>localeCompare\<close>, the collation of the host's locale, not by
  the code units of the strings. Where the collation puts a lower-case letter before the
  upper-case letters, as the default one does, the columns of a run that reports \<open>B\<close> and
  \<open>a\<close> are \<open>a\<close>, \<open>B\<close>, and \<open>B\<close> is before \<open>a\<close> in the lexicographic order.
\<close>

theorem resultToCsv_collation_order:
  "resultToCsv letterCollation numberToString (runRecord [(''B'', Some 1), (''a'', Some 2)])
     = \<lparr>header = ''a,B'', values_row = ''2,1''\<rparr>
   \<and> ''B'' < ''a''"
  by code_simp

text \<open>
  Claim C7, as the code has it. \<^verbatim>\<open>resultToCsv\<close> selects exactly the metrics with a
  defined numeric value, 0 included, orders them by name in the ascending order of the
  host's collation \<^verbatim>\<open>localeCompare\<close>, and writes the names and the texts of the values,
  joined by commas, in matching columns. Where the collation tells the names of the run
  apart, the row does not depend on the order in which the run emitted them. The names
  of a run are the keys of an object, without repetition; the collation is a consistent
  comparator, total and transitive.
\<close>

theorem resultToCsv_columns:
  assumes names: "distinct (map fst (audits r))"
    and total: "\<forall>a b. localeCompare a b \<le> 0 \<or> localeCompare b a \<le> 0"
    and trans: "\<forall>a b c. localeCompare a b \<le> 0 \<and> localeCompare b c \<le> 0
                  \<longrightarrow> localeCompare a c \<le> 0"
  shows "\<exists>cols. header (resultToCsv localeCompare toString r) = join '','' (map fst cols)
           \<and> values_row (resultToCsv localeCompare toString r)
             = join '','' (map (\<lambda>c. toString (snd c)) cols)
           \<and> set cols = {(name, v). \<exists>a. (name, a) \<in> set (audits r) \<and> numericValue a = Some v}
           \<and> sorted_wrt (\<lambda>a b. localeCompare a b \<le> 0) (map fst cols)
           \<and> distinct (map fst cols)
           \<and> ((\<forall>a \<in> set (map fst (audits r)). \<forall>b \<in> set (map fst (audits r)).
                  localeCompare a b \<le> 0 \<and> localeCompare b a \<le> 0 \<longrightarrow> a = b)
                \<longrightarrow> (\<forall>r'. mset (audits r') = mset (audits r)
                       \<longrightarrow> resultToCsv localeCompare toString r'
                           = resultToCsv localeCompare toString r))"
proof -
  let ?cmp = "\<lambda>a b. localeCompare (fst a) (fst b)"
  let ?le = "\<lambda>a b. ?cmp a b \<le> 0"
  let ?sorted = "Array_sort ?cmp (audits r)"
  let ?numericAudits = "filter (\<lambda>e. numericValue (snd e) \<noteq> None) ?sorted"
  let ?cols = "map (\<lambda>e. (fst e, the (numericValue (snd e)))) ?numericAudits"
  have total': "\<forall>a b. ?cmp a b \<le> 0 \<or> ?cmp b a \<le> 0"
    using total by blast
  have trans': "\<forall>a b c. ?cmp a b \<le> 0 \<and> ?cmp b c \<le> 0 \<longrightarrow> ?cmp a c \<le> 0"
    using trans by blast
  have sorted: "sorted_wrt ?le (Array_sort ?cmp xs)" for xs :: "(string \<times> 'a auditResult) list"
    using total' trans' by (rule sorted_Array_sort)
  have cols_names: "map fst ?cols = map fst ?numericAudits"
    by (simp add: comp_def)
  have cols_values: "map (\<lambda>c. toString (snd c)) ?cols
              = map (\<lambda>e. valueText toString (numericValue (snd e))) ?numericAudits"
    by (auto simp: comp_def)
  have h: "header (resultToCsv localeCompare toString r) = join '','' (map fst ?cols)"
    unfolding cols_names by (simp add: resultToCsv_def Let_def)
  have v: "values_row (resultToCsv localeCompare toString r)
           = join '','' (map (\<lambda>c. toString (snd c)) ?cols)"
    unfolding cols_values by (simp add: resultToCsv_def Let_def)
  have s: "set ?cols = {(name, v). \<exists>a. (name, a) \<in> set (audits r) \<and> numericValue a = Some v}"
    by (auto simp: image_iff) force
  have "sorted_wrt ?le ?numericAudits"
    using sorted by (rule sorted_wrt_filter)
  then have o: "sorted_wrt (\<lambda>a b. localeCompare a b \<le> 0) (map fst ?cols)"
    unfolding cols_names by (simp add: sorted_wrt_map)
  have d: "distinct (map fst ?cols)"
  proof -
    have "mset (map fst ?sorted) = mset (map fst (audits r))" by simp
    then have "distinct (map fst ?sorted)"
      using names by (metis mset_eq_imp_distinct_iff)
    then show ?thesis unfolding cols_names by (rule distinct_map_filter)
  qed
  have p: "resultToCsv localeCompare toString r' = resultToCsv localeCompare toString r"
    if apart: "\<forall>a \<in> set (map fst (audits r)). \<forall>b \<in> set (map fst (audits r)).
                 localeCompare a b \<le> 0 \<and> localeCompare b a \<le> 0 \<longrightarrow> a = b"
      and perm: "mset (audits r') = mset (audits r)" for r'
  proof -
    have inj: "inj_on fst (set (audits r))"
      using names by (simp add: distinct_map)
    have "\<forall>a \<in> set ?sorted. \<forall>b \<in> set ?sorted. ?le a b \<and> ?le b a \<longrightarrow> a = b"
    proof (intro ballI impI)
      fix a b
      assume a: "a \<in> set ?sorted" and b: "b \<in> set ?sorted" and le: "?le a b \<and> ?le b a"
      then have "fst a = fst b" using apart by simp
      then show "a = b" using inj a b by (simp add: inj_on_def)
    qed
    moreover have "\<forall>a \<in> set ?sorted. ?le a a"
      using total by blast
    moreover have "mset ?sorted = mset (Array_sort ?cmp (audits r'))"
      using perm by simp
    ultimately have "?sorted = Array_sort ?cmp (audits r')"
      using sorted [of "audits r"] sorted [of "audits r'"] by (intro sorted_unique)
    then show ?thesis by (simp add: resultToCsv_def)
  qed
  from h v s o d p show ?thesis by blast
qed

theorem resultToCsv_columns_witness:
  "distinct (map fst (audits (runRecord [(''b'', Some (0::int)), (''a'', Some 3), (''c'', None)])))
   \<and> (\<forall>a b. compareStrings a b \<le> 0 \<or> compareStrings b a \<le> 0)
   \<and> resultToCsv compareStrings numberToString
        (runRecord [(''b'', Some 0), (''a'', Some 3), (''c'', None)])
     = \<lparr>header = ''a,b'', values_row = ''3,0''\<rparr>
   \<and> resultToCsv compareStrings numberToString
        (runRecord [(''c'', None), (''a'', Some 3), (''b'', Some 0)])
     = \<lparr>header = ''a,b'', values_row = ''3,0''\<rparr>"
proof -
  let ?r = "runRecord [(''b'', Some (0::int)), (''a'', Some 3), (''c'', None)]"
  let ?r' = "runRecord [(''c'', None), (''a'', Some (3::int)), (''b'', Some 0)]"
  have d: "distinct (map fst (audits ?r))"
    by (simp add: runRecord_def)
  have t: "\<forall>a b. compareStrings a b \<le> 0 \<or> compareStrings b a \<le> 0"
    by auto
  have tr: "\<forall>a b c. compareStrings a b \<le> 0 \<and> compareStrings b c \<le> 0 \<longrightarrow> compareStrings a c \<le> 0"
    by auto
  have ap: "\<forall>a \<in> set (map fst (audits ?r)). \<forall>b \<in> set (map fst (audits ?r)).
              compareStrings a b \<le> 0 \<and> compareStrings b a \<le> 0 \<longrightarrow> a = b"
    by auto
  have e: "resultToCsv compareStrings numberToString ?r = \<lparr>header = ''a,b'', values_row = ''3,0''\<rparr>"
    by code_simp
  have m: "mset (audits ?r') = mset (audits ?r)"
    by (simp add: runRecord_def)
  from resultToCsv_columns [OF d t tr, of numberToString] ap m
  have "resultToCsv compareStrings numberToString ?r' = resultToCsv compareStrings numberToString ?r"
    by blast
  with d t e show ?thesis by simp
qed

end
